theory Spec2Isabelle
  imports Main "HOL-Library.Char_ord" "HOL-Library.List_Lexorder" "HOL-Library.Sublist"
begin

section \<open>Data model of package modd\<close>

text \<open>
  Paths are Go strings, that is byte sequences: \<^typ>\<open>string\<close>. \<open>sort.Strings\<close> compares
  them bytewise, which is the lexicographic order on \<^typ>\<open>char list\<close> over the order
  of character codes.
\<close>

text \<open>
  \<open>notify.Event\<close>: the four kinds that the \<open>switch\<close> of \<open>batch\<close> names. The \<open>switch\<close> has no
  \<open>default\<close>, so every other value of the type is \<open>Other\<close> and falls through.
\<close>

datatype Event = Create | Remove | Write | Rename | Other

text \<open>\<open>notify.EventInfo\<close>, as far as \<open>batch\<close> reads it: \<open>evt.Event()\<close> and \<open>evt.Path()\<close>.\<close>

datatype EventInfo = EventInfo (Event: Event) (Path: string)

text \<open>\<open>type Mod struct { Changed, Deleted, Added []string }\<close>; a nil slice is the empty list.\<close>

record Mod =
  Changed :: "string list"
  Deleted :: "string list"
  Added :: "string list"

text \<open>
  The four local maps of \<open>batch\<close>. They are of type \<open>map[string]bool\<close>, the only value
  ever stored is \<open>true\<close>, and only their keys are read (\<open>range\<close>, \<open>delete\<close>, \<open>len\<close>): each
  is the set of its keys.
\<close>

record accum =
  added :: "string set"
  removed :: "string set"
  changed :: "string set"
  renamed :: "string set"

definition empty_accum :: accum where
  "empty_accum = \<lparr>added = {}, removed = {}, changed = {}, renamed = {}\<rparr>"

text \<open>
  What the Go runtime decides and the program does not: the order in which \<open>range\<close>
  yields the keys of a map, and which case a \<open>select\<close> takes when both are ready at the
  same instant (\<open>select_tie n\<close> is the choice at the \<open>n\<close>-th \<open>select\<close>; \<open>True\<close> takes the
  channel).
\<close>

record runtime =
  map_order :: "string set \<Rightarrow> string list"
  select_tie :: "nat \<Rightarrow> bool"

text \<open>A \<open>range\<close> yields every key of a (finite) map, each once.\<close>

definition enumerates :: "(string set \<Rightarrow> string list) \<Rightarrow> bool" where
  "enumerates order \<longleftrightarrow> (\<forall>S. finite S \<longrightarrow> set (order S) = S \<and> distinct (order S))"

section \<open>Keys of a map, and the methods of Mod\<close>

text \<open>
  \<open>for k := range m { body }\<close> where the body may delete entries of \<open>m\<close>: the keys come
  in the order \<open>ks\<close> the runtime picked, and a key deleted before it is reached is not
  produced. \<open>m\<close> reads the map ranged over from the loop's state.
\<close>

fun range_keys :: "string list \<Rightarrow> ('s \<Rightarrow> string set) \<Rightarrow> (string \<Rightarrow> 's \<Rightarrow> 's) \<Rightarrow> 's \<Rightarrow> 's" where
  "range_keys [] m body s = s"
| "range_keys (k # ks) m body s =
     (if k \<in> m s then range_keys ks m body (body k s) else range_keys ks m body s)"

text \<open>
  \<open>_keys\<close>: the keys of a non-empty map, collected in \<open>range\<close> order and then sorted by
  \<open>sort.Strings\<close>; nil for an empty map.
\<close>

definition keys' :: "(string set \<Rightarrow> string list) \<Rightarrow> string set \<Rightarrow> string list" where
  "keys' order m =
     (if card m > 0
      then sort (range_keys (order m) (\<lambda>_. m) (\<lambda>k keys. keys @ [k]) [])
      else [])"

text \<open>\<open>Mod.All\<close>: the three slices are written into one map, whose keys are returned.\<close>

definition Mod_All :: "(string set \<Rightarrow> string list) \<Rightarrow> Mod \<Rightarrow> string list" where
  "Mod_All order m =
     (let all = fold insert (Changed m) {};
          all = fold insert (Added m) all;
          all = fold insert (Deleted m) all
      in keys' order all)"

text \<open>\<open>Mod.Empty\<close>\<close>

definition Mod_Empty :: "Mod \<Rightarrow> bool" where
  "Mod_Empty m =
     (if length (Changed m) > 0 \<or> length (Deleted m) > 0 \<or> length (Added m) > 0
      then False else True)"

section \<open>batch\<close>

text \<open>
  The \<open>case evt := <-ch\<close> branch: the event's path is filed under its kind. The line
  for \<open>Logger.SayAs("debug", ...)\<close> changes nothing that \<open>batch\<close> reads and is left out.
\<close>

definition receive :: "EventInfo \<Rightarrow> accum \<Rightarrow> accum" where
  "receive evt s =
     (case Event evt of
        Create \<Rightarrow> s\<lparr>added := insert (Path evt) (added s)\<rparr>
      | Remove \<Rightarrow> s\<lparr>removed := insert (Path evt) (removed s)\<rparr>
      | Write \<Rightarrow> s\<lparr>changed := insert (Path evt) (changed s)\<rparr>
      | Rename \<Rightarrow> s\<lparr>renamed := insert (Path evt) (renamed s)\<rparr>
      | Other \<Rightarrow> s)"

text \<open>The three loops of the \<open>case <-time.After(batchTime)\<close> branch, one body each.\<close>

definition renamed_body :: "(string \<Rightarrow> bool) \<Rightarrow> string \<Rightarrow> accum \<Rightarrow> accum" where
  "renamed_body exists k s =
     (if exists k then s\<lparr>added := insert k (added s)\<rparr>
      else s\<lparr>removed := insert k (removed s)\<rparr>)"

definition added_body :: "(string \<Rightarrow> bool) \<Rightarrow> string \<Rightarrow> accum \<Rightarrow> accum" where
  "added_body exists k s =
     (if exists k
      then s\<lparr>changed := changed s - {k}, removed := removed s - {k}\<rparr>
      else s\<lparr>added := added s - {k}, removed := removed s - {k}, changed := changed s - {k}\<rparr>)"

definition removed_body :: "(string \<Rightarrow> bool) \<Rightarrow> string \<Rightarrow> accum \<Rightarrow> accum" where
  "removed_body exists k s =
     (if exists k
      then s\<lparr>removed := removed s - {k}\<rparr>
      else s\<lparr>added := added s - {k}, changed := changed s - {k}\<rparr>)"

text \<open>
  The whole timer branch: the loops over \<open>renamed\<close>, \<open>added\<close> and \<open>removed\<close> in this order,
  each ranging over the map as the previous loop left it, then the three sorted key
  lists. \<open>exists\<close> is \<open>exists.Check\<close>. The result is the struct that \<open>ret := &Mod{}\<close>
  points to when \<open>batch\<close> returns; nothing else holds that pointer.
\<close>

definition resolve :: "(string set \<Rightarrow> string list) \<Rightarrow> (string \<Rightarrow> bool) \<Rightarrow> accum \<Rightarrow> Mod" where
  "resolve order exists s0 =
     (let s1 = range_keys (order (renamed s0)) renamed (renamed_body exists) s0;
          s2 = range_keys (order (added s1)) added (added_body exists) s1;
          s3 = range_keys (order (removed s2)) removed (removed_body exists) s2
      in \<lparr>Changed = keys' order (changed s3),
          Deleted = keys' order (removed s3),
          Added = keys' order (added s3)\<rparr>)"

text \<open>
  The channel \<open>ch\<close> is the list of the events not yet received, each with the time (in
  nanoseconds, the unit of \<open>time.Duration\<close>) at which it was sent; it is first in, first
  out.

  One turn of \<open>for { select { ... } }\<close> entered at time \<open>now\<close>: the head of the channel can
  be received from \<open>ready = max t now\<close> on, and the timer that this turn's
  \<open>time.After(batchTime)\<close> creates fires at \<open>fire = now + max batchTime 0\<close>. The earlier of
  the two is taken, and the runtime chooses when they coincide. Receiving an event
  files it and enters the next turn at the time of receipt; the timer branch resolves
  and returns. The bodies of the branches take no time. The result is the \<open>Mod\<close>,
  the number of \<open>select\<close>s executed so far, the time of return and what is left in the
  channel.
\<close>

fun batch_loop ::
  "runtime \<Rightarrow> int \<Rightarrow> (string \<Rightarrow> bool) \<Rightarrow> accum \<Rightarrow> nat \<Rightarrow> int \<Rightarrow> (int \<times> EventInfo) list
     \<Rightarrow> Mod \<times> nat \<times> int \<times> (int \<times> EventInfo) list" where
  "batch_loop rt batchTime exists s n now [] =
     (resolve (map_order rt) exists s, Suc n, now + max batchTime 0, [])"
| "batch_loop rt batchTime exists s n now ((t, evt) # ch) =
     (let ready = max t now; fire = now + max batchTime 0 in
      if ready < fire \<or> (ready = fire \<and> select_tie rt n)
      then batch_loop rt batchTime exists (receive evt s) (Suc n) ready ch
      else (resolve (map_order rt) exists s, Suc n, fire, (t, evt) # ch))"

text \<open>\<open>batch\<close> starts the loop with four empty maps.\<close>

definition batch ::
  "runtime \<Rightarrow> int \<Rightarrow> (string \<Rightarrow> bool) \<Rightarrow> nat \<Rightarrow> int \<Rightarrow> (int \<times> EventInfo) list
     \<Rightarrow> Mod \<times> nat \<times> int \<times> (int \<times> EventInfo) list" where
  "batch rt batchTime exists n now ch = batch_loop rt batchTime exists empty_accum n now ch"

section \<open>Path normalisation\<close>

text \<open>A Go \<open>error\<close> is its message; \<open>nil\<close> is \<open>None\<close>.\<close>

type_synonym error = string

text \<open>
  What \<open>modd.go\<close> calls and does not define: \<open>os.PathSeparator\<close>, \<open>filepath.Abs\<close>,
  \<open>filepath.Rel\<close>, \<open>filepath.Join\<close> (called with two elements), \<open>os.Stat\<close> (whether it
  returned an error for the path) and \<open>filterFiles\<close>, which another file of the package
  defines: they are parameters. A function that returns a value and an \<open>error\<close> is a
  pair, as in Go. The file system does not change during a run, and \<open>filterFiles\<close> gets
  its slices by value and returns a slice of its own.
\<close>

record os =
  Separator :: char
  Abs :: "string \<Rightarrow> string \<times> error option"
  Rel :: "string \<Rightarrow> string \<Rightarrow> string \<times> error option"
  Join :: "string \<Rightarrow> string \<Rightarrow> string"
  Stat_err :: "string \<Rightarrow> error option"
  filterFiles :: "string list \<Rightarrow> string list \<Rightarrow> string list \<times> error option"

text \<open>
  \<open>strings.Index(s, substr)\<close>: the index of the first instance of \<open>substr\<close> in \<open>s\<close>, or
  \<open>-1\<close> when there is none.
\<close>

fun strings_Index :: "string \<Rightarrow> string \<Rightarrow> int" where
  "strings_Index [] substr = (if substr = [] then 0 else - 1)"
| "strings_Index (c # s) substr =
     (if prefix substr (c # s) then 0
      else let i = strings_Index s substr in if i < 0 then - 1 else i + 1)"

text \<open>\<open>filepath.ToSlash\<close>: every separator becomes a slash.\<close>

definition ToSlash :: "char \<Rightarrow> string \<Rightarrow> string" where
  "ToSlash sep path =
     (if sep = CHR ''/'' then path else map (\<lambda>c. if c = sep then CHR ''/'' else c) path)"

text \<open>
  \<open>isUnder\<close>. Go evaluates \<open>child[len(parent)]\<close> only when \<open>off == 0\<close> and the lengths
  differ, where \<open>parent\<close> is a proper prefix of \<open>child\<close> and the index is in range.
\<close>

definition isUnder :: "char \<Rightarrow> string \<Rightarrow> string \<Rightarrow> bool" where
  "isUnder sep parent child =
     (let parent = ToSlash sep parent;
          child = ToSlash sep child;
          off = strings_Index child parent
      in if off = 0 \<and> (length child = length parent \<or> child ! length parent = CHR ''/'')
         then True else False)"

text \<open>
  \<open>normPath\<close>: the first base that the path is under decides. The error of
  \<open>filepath.Abs\<close> is looked at only inside that branch.
\<close>

fun normPath :: "os \<Rightarrow> string list \<Rightarrow> string \<Rightarrow> string \<times> error option" where
  "normPath os [] abspath = (abspath, None)"
| "normPath os (base # bases) abspath =
     (let (absbase, err) = Abs os base in
      if isUnder (Separator os) absbase abspath
      then (if err \<noteq> None then ([], err)
            else let (relpath, err) = Rel os absbase abspath in
                 if err \<noteq> None then ([], err)
                 else (Join os base relpath, None))
      else normPath os bases abspath)"

text \<open>\<open>normPaths\<close>: the paths in order; the first error ends the loop with a nil slice.\<close>

fun normPaths :: "os \<Rightarrow> string list \<Rightarrow> string list \<Rightarrow> string list \<times> error option" where
  "normPaths os bases [] = ([], None)"
| "normPaths os bases (p # abspaths) =
     (let (norm, err) = normPath os bases p in
      if err \<noteq> None then ([], err)
      else let (ret, err) = normPaths os bases abspaths in
           if err \<noteq> None then ([], err) else (norm # ret, None))"

text \<open>\<open>statExistenceChecker.Check\<close>\<close>

definition Check :: "os \<Rightarrow> string \<Rightarrow> bool" where
  "Check os p = (if Stat_err os p = None then True else False)"

section \<open>Pointers to Mod\<close>

text \<open>
  \<open>Filter\<close> and \<open>normPaths\<close> have the receiver \<open>*Mod\<close> and return a \<open>*Mod\<close>. The store holds
  the \<open>Mod\<close> structs allocated so far, a pointer is nil (\<open>None\<close>) or the index of a cell,
  and \<open>&Mod{...}\<close> takes the next cell. Reading through nil is a run-time panic
  (\<open>deref\<close> gives \<open>None\<close>); an index beyond the store is no pointer that the program can
  hold and is read like nil.
\<close>

type_synonym store = "Mod list"

type_synonym ptr = "nat option"

datatype 'a outcome = Return 'a | Panic

definition new_Mod :: "Mod \<Rightarrow> store \<Rightarrow> ptr \<times> store" where
  "new_Mod m h = (Some (length h), h @ [m])"

definition deref :: "store \<Rightarrow> ptr \<Rightarrow> Mod option" where
  "deref h p = (case p of None \<Rightarrow> None | Some a \<Rightarrow> if a < length h then Some (h ! a) else None)"

text \<open>\<open>Mod.Filter\<close>: the receiver's slices are passed to \<open>filterFiles\<close> by value.\<close>

definition Mod_Filter ::
  "os \<Rightarrow> ptr \<Rightarrow> string list \<Rightarrow> store \<Rightarrow> ((ptr \<times> error option) \<times> store) outcome" where
  "Mod_Filter os p excludes h =
     (case deref h p of
        None \<Rightarrow> Panic
      | Some m \<Rightarrow>
          let (changed', err) = filterFiles os (Changed m) excludes in
          if err \<noteq> None then Return ((None, err), h)
          else let (deleted', err) = filterFiles os (Deleted m) excludes in
          if err \<noteq> None then Return ((None, err), h)
          else let (added', err) = filterFiles os (Added m) excludes in
          if err \<noteq> None then Return ((None, err), h)
          else let (r, h') = new_Mod \<lparr>Changed = changed', Deleted = deleted', Added = added'\<rparr> h
               in Return ((r, None), h'))"

text \<open>\<open>Mod.normPaths\<close>\<close>

definition Mod_normPaths ::
  "os \<Rightarrow> ptr \<Rightarrow> string list \<Rightarrow> store \<Rightarrow> ((ptr \<times> error option) \<times> store) outcome" where
  "Mod_normPaths os p bases h =
     (case deref h p of
        None \<Rightarrow> Panic
      | Some m \<Rightarrow>
          let (changed', err) = normPaths os bases (Changed m) in
          if err \<noteq> None then Return ((None, err), h)
          else let (deleted', err) = normPaths os bases (Deleted m) in
          if err \<noteq> None then Return ((None, err), h)
          else let (added', err) = normPaths os bases (Added m) in
          if err \<noteq> None then Return ((None, err), h)
          else let (r, h') = new_Mod \<lparr>Changed = changed', Deleted = deleted', Added = added'\<rparr> h
               in Return ((r, None), h'))"

section \<open>The loop of Watch\<close>

text \<open>
  \<open>Watch\<close> first registers every path with \<open>notify.Watch\<close> and returns the first error
  of \<open>os.Stat\<close> or of the registration; then it starts the goroutine, which is what
  follows. The state that the goroutine works on: the clock, the contents of
  \<open>evtch\<close>, the number of \<open>select\<close>s executed, the store, the lines given to
  \<open>Logger.Shout\<close>, the values written to \<open>ch\<close>, and whether the goroutine has panicked
  (which ends the process).
\<close>

record session =
  clock :: int
  evtch :: "(int \<times> EventInfo) list"
  selects :: nat
  heap :: store
  shouted :: "string list"
  sent :: "Mod list"
  panicked :: bool

definition Shout :: "string \<Rightarrow> error option \<Rightarrow> session \<Rightarrow> session" where
  "Shout msg err st = st\<lparr>shouted := shouted st @ [msg @ (case err of None \<Rightarrow> [] | Some e \<Rightarrow> e)]\<rparr>"

text \<open>
  One turn of the \<open>for\<close> loop in the goroutine. The struct that \<open>batch\<close> returns a pointer
  to is put into the store here. Each \<open>ret, err := ...\<close> rebinds \<open>ret\<close>, also to nil,
  and the code goes on after \<open>Shout\<close>. \<open>ret.Empty()\<close> has a value receiver, so it reads
  through \<open>ret\<close>, as \<open>*ret\<close> does. The send on \<open>ch\<close> takes no time.
\<close>

definition Watch_turn ::
  "runtime \<Rightarrow> os \<Rightarrow> string list \<Rightarrow> string list \<Rightarrow> int \<Rightarrow> session \<Rightarrow> session" where
  "Watch_turn rt os paths excludes batchTime st =
     (let (m, n, T, rest) = batch rt batchTime (Check os) (selects st) (clock st) (evtch st);
          (ret, h) = new_Mod m (heap st);
          st = st\<lparr>clock := T, evtch := rest, selects := n, heap := h\<rparr>
      in if ret \<noteq> None
         then (case Mod_normPaths os ret paths (heap st) of
                 Panic \<Rightarrow> st\<lparr>panicked := True\<rparr>
               | Return ((ret, err), h) \<Rightarrow>
                   let st = st\<lparr>heap := h\<rparr>;
                       st = (if err \<noteq> None then Shout ''Error normalising paths: '' err st else st)
                   in (case Mod_Filter os ret excludes (heap st) of
                         Panic \<Rightarrow> st\<lparr>panicked := True\<rparr>
                       | Return ((ret, err), h) \<Rightarrow>
                           let st = st\<lparr>heap := h\<rparr>;
                               st = (if err \<noteq> None then Shout ''Error filtering paths: '' err st else st)
                           in (case deref (heap st) ret of
                                 None \<Rightarrow> st\<lparr>panicked := True\<rparr>
                               | Some v \<Rightarrow> if \<not> Mod_Empty v then st\<lparr>sent := sent st @ [v]\<rparr> else st)))
         else st)"

text \<open>
  The loop has no exit: \<open>Watch_loop k\<close> is the state after \<open>k\<close> turns, or at the panic if
  one of them panics.
\<close>

fun Watch_loop ::
  "nat \<Rightarrow> runtime \<Rightarrow> os \<Rightarrow> string list \<Rightarrow> string list \<Rightarrow> int \<Rightarrow> session \<Rightarrow> session" where
  "Watch_loop 0 rt os paths excludes batchTime st = st"
| "Watch_loop (Suc k) rt os paths excludes batchTime st =
     (let st = Watch_turn rt os paths excludes batchTime st
      in if panicked st then st else Watch_loop k rt os paths excludes batchTime st)"

section \<open>Notions used in the statements\<close>

text \<open>
  The time at which the last of the events \<open>taken\<close> is received by a loop entered at
  \<open>now\<close>: an event is received when it was sent or when the loop gets to it, whichever
  is later. With nothing taken it is the time of entry.
\<close>

fun last_receipt :: "int \<Rightarrow> (int \<times> EventInfo) list \<Rightarrow> int" where
  "last_receipt now [] = now"
| "last_receipt now ((t, evt) # evs) = last_receipt (max t now) evs"

text \<open>A map of the program has finitely many keys.\<close>

definition finite_accum :: "accum \<Rightarrow> bool" where
  "finite_accum s \<longleftrightarrow>
     finite (added s) \<and> finite (removed s) \<and> finite (changed s) \<and> finite (renamed s)"

text \<open>
  One runtime, for concrete runs: \<open>range\<close> happens to yield the keys in ascending order,
  and a \<open>select\<close> with both cases ready takes the channel.
\<close>

definition sorted_runtime :: runtime where
  "sorted_runtime = \<lparr>map_order = sorted_list_of_set, select_tie = (\<lambda>_. True)\<rparr>"



text \<open>
  One environment, for concrete runs: the separator is the slash, the working
  directory is \<open>/w\<close>, only \<open>/w/src/a.go\<close> exists, and \<open>filterFiles\<close> drops the files that
  are listed literally and rejects the pattern \<open>[\<close>.
\<close>

definition example_os :: os where
  "example_os =
     \<lparr>Separator = CHR ''/'',
      Abs = (\<lambda>p. (if take 1 p = ''/'' then p else ''/w/'' @ p, None)),
      Rel = (\<lambda>base p. (drop (Suc (length base)) p, None)),
      Join = (\<lambda>a b. a @ ''/'' @ b),
      Stat_err = (\<lambda>p. if p = ''/w/src/a.go'' then None else Some ''no such file or directory''),
      filterFiles = (\<lambda>files excludes.
         if ''['' \<in> set excludes then ([], Some ''syntax error in pattern'')
         else (filter (\<lambda>f. f \<notin> set excludes) files, None))\<rparr>"

text \<open>A session at its start, with two events on their way.\<close>

definition example_session :: session where
  "example_session =
     \<lparr>clock = 0, evtch = [(0, EventInfo Create ''/w/src/a.go''), (900, EventInfo Remove ''/w/src/gone'')],
      selects = 0, heap = [], shouted = [], sent = [], panicked = False\<rparr>"

section \<open>The keys of a map and the loops of the timer branch\<close>

lemma range_collect: "set ks \<subseteq> m \<Longrightarrow> range_keys ks (\<lambda>_. m) (\<lambda>k keys. keys @ [k]) acc = acc @ ks"
  by (induction ks arbitrary: acc) auto

lemma keys'_sorted_list:
  assumes "enumerates order" "finite m"
  shows "keys' order m = sorted_list_of_set m"
proof -
  from assms have o: "set (order m) = m" "distinct (order m)"
    by (auto simp: enumerates_def)
  have "sort (order m) = sorted_list_of_set (set (order m))"
    using o(2) by (simp add: sorted_list_of_set_sort_remdups distinct_remdups_id)
  then have s: "sort (order m) = sorted_list_of_set m" using o(1) by simp
  show ?thesis
  proof (cases "m = {}")
    case True
    then show ?thesis by (simp add: keys'_def)
  next
    case False
    then have "card m > 0" using assms(2) by (simp add: card_gt_0_iff)
    then show ?thesis using s o(1) by (simp add: keys'_def range_collect)
  qed
qed

lemma renamed_loop:
  "added (range_keys ks renamed (renamed_body ex) s) = added s \<union> {k \<in> set ks \<inter> renamed s. ex k} \<and>
   removed (range_keys ks renamed (renamed_body ex) s) = removed s \<union> {k \<in> set ks \<inter> renamed s. \<not> ex k} \<and>
   changed (range_keys ks renamed (renamed_body ex) s) = changed s \<and>
   renamed (range_keys ks renamed (renamed_body ex) s) = renamed s"
proof (induction ks arbitrary: s)
  case Nil
  show ?case by simp
next
  case (Cons k ks)
  have step: "added (renamed_body ex k s) = (if ex k then insert k (added s) else added s)"
    "removed (renamed_body ex k s) = (if ex k then removed s else insert k (removed s))"
    "changed (renamed_body ex k s) = changed s"
    "renamed (renamed_body ex k s) = renamed s"
    by (simp_all add: renamed_body_def)
  show ?case
    by (simp add: Cons.IH step) blast
qed

lemma added_loop:
  "added (range_keys ks added (added_body ex) s) = added s - {k \<in> set ks. \<not> ex k} \<and>
   removed (range_keys ks added (added_body ex) s) = removed s - (set ks \<inter> added s) \<and>
   changed (range_keys ks added (added_body ex) s) = changed s - (set ks \<inter> added s)"
proof (induction ks arbitrary: s)
  case Nil
  show ?case by simp
next
  case (Cons k ks)
  have step: "added (added_body ex k s) = (if ex k then added s else added s - {k})"
    "removed (added_body ex k s) = removed s - {k}"
    "changed (added_body ex k s) = changed s - {k}"
    by (simp_all add: added_body_def)
  show ?case
    by (simp add: Cons.IH step) blast
qed

lemma removed_loop:
  "removed (range_keys ks removed (removed_body ex) s) = removed s - {k \<in> set ks. ex k} \<and>
   added (range_keys ks removed (removed_body ex) s) = added s - {k \<in> set ks \<inter> removed s. \<not> ex k} \<and>
   changed (range_keys ks removed (removed_body ex) s) = changed s - {k \<in> set ks \<inter> removed s. \<not> ex k}"
proof (induction ks arbitrary: s)
  case Nil
  show ?case by simp
next
  case (Cons k ks)
  have step: "removed (removed_body ex k s) = (if ex k then removed s - {k} else removed s)"
    "added (removed_body ex k s) = (if ex k then added s else added s - {k})"
    "changed (removed_body ex k s) = (if ex k then changed s else changed s - {k})"
    by (simp_all add: removed_body_def)
  show ?case
    by (simp add: Cons.IH step) blast
qed

section \<open>What a run of batch receives and returns\<close>

lemma fold_receive_field:
  assumes "\<And>e s. f (receive e s) = (if Event e = K then insert (Path e) (f s) else f s)"
  shows "f (fold receive evs s) = f s \<union> {Path e |e. e \<in> set evs \<and> Event e = K}"
proof (induction evs arbitrary: s)
  case Nil
  show ?case by simp
next
  case (Cons e evs)
  show ?case by (auto simp: Cons.IH assms)
qed

lemma receive_sets:
  "added (fold receive evs s) = added s \<union> {Path e |e. e \<in> set evs \<and> Event e = Create}"
  "removed (fold receive evs s) = removed s \<union> {Path e |e. e \<in> set evs \<and> Event e = Remove}"
  "changed (fold receive evs s) = changed s \<union> {Path e |e. e \<in> set evs \<and> Event e = Write}"
  "renamed (fold receive evs s) = renamed s \<union> {Path e |e. e \<in> set evs \<and> Event e = Rename}"
proof -
  have step: "added (receive e s) = (if Event e = Create then insert (Path e) (added s) else added s)"
    "removed (receive e s) = (if Event e = Remove then insert (Path e) (removed s) else removed s)"
    "changed (receive e s) = (if Event e = Write then insert (Path e) (changed s) else changed s)"
    "renamed (receive e s) = (if Event e = Rename then insert (Path e) (renamed s) else renamed s)"
    for e s
    by (cases "Event e"; simp add: receive_def)+
  show "added (fold receive evs s) = added s \<union> {Path e |e. e \<in> set evs \<and> Event e = Create}"
    by (rule fold_receive_field) (rule step)
  show "removed (fold receive evs s) = removed s \<union> {Path e |e. e \<in> set evs \<and> Event e = Remove}"
    by (rule fold_receive_field) (rule step)
  show "changed (fold receive evs s) = changed s \<union> {Path e |e. e \<in> set evs \<and> Event e = Write}"
    by (rule fold_receive_field) (rule step)
  show "renamed (fold receive evs s) = renamed s \<union> {Path e |e. e \<in> set evs \<and> Event e = Rename}"
    by (rule fold_receive_field) (rule step)
qed

lemma finite_paths: "finite {Path e |e. e \<in> set evs \<and> P e}"
  by (rule finite_subset [of _ "Path ` set evs"]) auto

lemma finite_accum_receive: "finite_accum s \<Longrightarrow> finite_accum (fold receive evs s)"
  by (simp add: finite_accum_def receive_sets finite_paths)

lemma finite_accum_empty: "finite_accum empty_accum"
  by (simp add: finite_accum_def empty_accum_def)

lemma resolve_sets:
  assumes "enumerates order" "finite_accum s"
  shows "set (Added (resolve order ex s)) = {k. ex k \<and> (k \<in> added s \<or> k \<in> renamed s)}"
    and "set (Deleted (resolve order ex s)) =
           {k. \<not> ex k \<and> (k \<in> removed s \<or> k \<in> renamed s) \<and> k \<notin> added s}"
    and "set (Changed (resolve order ex s)) =
           {k. k \<in> changed s \<and> k \<notin> added s \<and> k \<notin> renamed s \<and> (ex k \<or> k \<notin> removed s)}"
    and "distinct (Added (resolve order ex s))"
    and "distinct (Deleted (resolve order ex s))"
    and "distinct (Changed (resolve order ex s))"
    and "sorted (Added (resolve order ex s))"
    and "sorted (Deleted (resolve order ex s))"
    and "sorted (Changed (resolve order ex s))"
proof -
  define s1 where "s1 = range_keys (order (renamed s)) renamed (renamed_body ex) s"
  define s2 where "s2 = range_keys (order (added s1)) added (added_body ex) s1"
  define s3 where "s3 = range_keys (order (removed s2)) removed (removed_body ex) s2"
  have fin: "finite (added s)" "finite (removed s)" "finite (changed s)" "finite (renamed s)"
    using assms(2) by (simp_all add: finite_accum_def)
  have o: "\<And>S. finite S \<Longrightarrow> set (order S) = S"
    using assms(1) by (simp add: enumerates_def)
  have a1: "added s1 = added s \<union> {k \<in> renamed s. ex k}"
    and r1: "removed s1 = removed s \<union> {k \<in> renamed s. \<not> ex k}"
    and c1: "changed s1 = changed s"
    using renamed_loop [of "order (renamed s)" ex s] o [OF fin(4)] by (auto simp: s1_def)
  have f1: "finite (added s1)" "finite (removed s1)" "finite (changed s1)"
    using fin by (simp_all add: a1 r1 c1)
  have a2: "added s2 = {k \<in> added s1. ex k}"
    and r2: "removed s2 = removed s1 - added s1"
    and c2: "changed s2 = changed s1 - added s1"
    using added_loop [of "order (added s1)" ex s1] o [OF f1(1)] by (auto simp: s2_def)
  have f2: "finite (added s2)" "finite (removed s2)" "finite (changed s2)"
    using f1 by (simp_all add: a2 r2 c2)
  have r3: "removed s3 = {k \<in> removed s2. \<not> ex k}"
    and a3: "added s3 = added s2 - {k \<in> removed s2. \<not> ex k}"
    and c3: "changed s3 = changed s2 - {k \<in> removed s2. \<not> ex k}"
    using removed_loop [of "order (removed s2)" ex s2] o [OF f2(2)] by (auto simp: s3_def)
  have f3: "finite (added s3)" "finite (removed s3)" "finite (changed s3)"
    using f2 by (simp_all add: a3 r3 c3)
  have res: "resolve order ex s =
      \<lparr>Changed = sorted_list_of_set (changed s3),
       Deleted = sorted_list_of_set (removed s3),
       Added = sorted_list_of_set (added s3)\<rparr>"
    using f3 assms(1)
    by (simp add: resolve_def Let_def s1_def s2_def s3_def keys'_sorted_list)
  show "set (Added (resolve order ex s)) = {k. ex k \<and> (k \<in> added s \<or> k \<in> renamed s)}"
    using f3 by (auto simp: res a3 a2 a1 r2 r1)
  show "set (Deleted (resolve order ex s)) =
           {k. \<not> ex k \<and> (k \<in> removed s \<or> k \<in> renamed s) \<and> k \<notin> added s}"
    using f3 by (auto simp: res r3 r2 r1 a1)
  show "set (Changed (resolve order ex s)) =
           {k. k \<in> changed s \<and> k \<notin> added s \<and> k \<notin> renamed s \<and> (ex k \<or> k \<notin> removed s)}"
    using f3 by (auto simp: res c3 c2 c1 r2 r1 a1)
  show "distinct (Added (resolve order ex s))" "distinct (Deleted (resolve order ex s))"
    "distinct (Changed (resolve order ex s))" "sorted (Added (resolve order ex s))"
    "sorted (Deleted (resolve order ex s))" "sorted (Changed (resolve order ex s))"
    by (simp_all add: res)
qed

lemma batch_loop_run:
  "batch_loop rt D ex s n now ch = (m, n', T, rest) \<Longrightarrow>
     \<exists>taken. ch = taken @ rest \<and>
       m = resolve (map_order rt) ex (fold receive (map snd taken) s) \<and>
       n' = n + length taken + 1 \<and>
       T = last_receipt now taken + max D 0 \<and>
       (\<forall>pre t evt post. taken = pre @ (t, evt) # post \<longrightarrow> t \<le> last_receipt now pre + max D 0) \<and>
       (\<forall>t evt rest'. rest = (t, evt) # rest' \<longrightarrow> T \<le> max t (last_receipt now taken))"
proof (induction ch arbitrary: s n now)
  case Nil
  then show ?case by auto
next
  case (Cons x ch)
  obtain t evt where x: "x = (t, evt)" by (cases x)
  show ?case
  proof (cases "max t now < now + max D 0 \<or> (max t now = now + max D 0 \<and> select_tie rt n)")
    case True
    have "batch_loop rt D ex s n now ((t, evt) # ch) =
        batch_loop rt D ex (receive evt s) (Suc n) (max t now) ch"
      by (simp only: batch_loop.simps Let_def if_P [OF True])
    then have "batch_loop rt D ex (receive evt s) (Suc n) (max t now) ch = (m, n', T, rest)"
      using Cons.prems by (simp only: x)
    from Cons.IH [OF this] obtain taken where
      t1: "ch = taken @ rest"
      and t2: "m = resolve (map_order rt) ex (fold receive (map snd taken) (receive evt s))"
      and t3: "n' = Suc n + length taken + 1"
      and t4: "T = last_receipt (max t now) taken + max D 0"
      and t5: "\<forall>pre t' evt' post. taken = pre @ (t', evt') # post \<longrightarrow>
                 t' \<le> last_receipt (max t now) pre + max D 0"
      and t6: "\<forall>t' evt' rest'. rest = (t', evt') # rest' \<longrightarrow>
                 T \<le> max t' (last_receipt (max t now) taken)"
      by blast
    have le: "t \<le> now + max D 0" using True by linarith
    have gaps: "\<forall>pre t' evt' post. (t, evt) # taken = pre @ (t', evt') # post \<longrightarrow>
                 t' \<le> last_receipt now pre + max D 0"
    proof (intro allI impI)
      fix pre t' evt' post
      assume eq: "(t, evt) # taken = pre @ (t', evt') # post"
      show "t' \<le> last_receipt now pre + max D 0"
      proof (cases pre)
        case Nil
        then show ?thesis using eq le by simp
      next
        case (Cons y pre')
        then have "y = (t, evt)" "taken = pre' @ (t', evt') # post" using eq by simp_all
        then show ?thesis using t5 Cons by simp
      qed
    qed
    show ?thesis
      by (rule exI [of _ "(t, evt) # taken"]) (use t1 t2 t3 t4 t6 gaps x in simp)
  next
    case False
    have "batch_loop rt D ex s n now ((t, evt) # ch) =
        (resolve (map_order rt) ex s, Suc n, now + max D 0, (t, evt) # ch)"
      by (simp only: batch_loop.simps Let_def if_not_P [OF False])
    then have "m = resolve (map_order rt) ex s" "n' = Suc n" "T = now + max D 0" "rest = x # ch"
      using Cons.prems by (simp_all only: x prod.inject)
    moreover have "now + max D 0 \<le> max t now" using False by linarith
    ultimately show ?thesis by (auto simp: x)
  qed
qed

lemma batch_run:
  assumes "batch rt D ex n now ch = (m, n', T, rest)" and "ch = taken @ rest"
  shows "m = resolve (map_order rt) ex (fold receive (map snd taken) empty_accum)"
    and "n' = n + length taken + 1"
    and "T = last_receipt now taken + max D 0"
    and "\<forall>pre t evt post. taken = pre @ (t, evt) # post \<longrightarrow> t \<le> last_receipt now pre + max D 0"
    and "\<forall>t evt rest'. rest = (t, evt) # rest' \<longrightarrow> T \<le> max t (last_receipt now taken)"
proof -
  from batch_loop_run [OF assms(1) [unfolded batch_def]] obtain taken' where
    t: "ch = taken' @ rest"
      "m = resolve (map_order rt) ex (fold receive (map snd taken') empty_accum)"
      "n' = n + length taken' + 1"
      "T = last_receipt now taken' + max D 0"
      "\<forall>pre t evt post. taken' = pre @ (t, evt) # post \<longrightarrow> t \<le> last_receipt now pre + max D 0"
      "\<forall>t evt rest'. rest = (t, evt) # rest' \<longrightarrow> T \<le> max t (last_receipt now taken')"
    by blast
  have "taken' = taken" using t(1) assms(2) by simp
  with t show "m = resolve (map_order rt) ex (fold receive (map snd taken) empty_accum)"
    "n' = n + length taken + 1" "T = last_receipt now taken + max D 0"
    "\<forall>pre t evt post. taken = pre @ (t, evt) # post \<longrightarrow> t \<le> last_receipt now pre + max D 0"
    "\<forall>t evt rest'. rest = (t, evt) # rest' \<longrightarrow> T \<le> max t (last_receipt now taken)"
    by simp_all
qed

lemma enumerates_sorted_runtime: "enumerates (map_order sorted_runtime)"
  by (simp add: enumerates_def sorted_runtime_def)

lemma batch_resolves:
  assumes "batch rt D ex n now ch = (m, n', T, rest)" and "ch = taken @ rest"
    and "enumerates (map_order rt)"
  defines "s \<equiv> fold receive (map snd taken) empty_accum"
  shows "set (Added m) = {k. ex k \<and> (k \<in> added s \<or> k \<in> renamed s)}"
    and "set (Deleted m) = {k. \<not> ex k \<and> (k \<in> removed s \<or> k \<in> renamed s) \<and> k \<notin> added s}"
    and "set (Changed m) =
           {k. k \<in> changed s \<and> k \<notin> added s \<and> k \<notin> renamed s \<and> (ex k \<or> k \<notin> removed s)}"
    and "distinct (Added m)" and "distinct (Deleted m)" and "distinct (Changed m)"
proof -
  have m: "m = resolve (map_order rt) ex s"
    unfolding s_def by (rule batch_run(1) [OF assms(1,2)])
  have fin: "finite_accum s"
    unfolding s_def by (rule finite_accum_receive [OF finite_accum_empty])
  show "set (Added m) = {k. ex k \<and> (k \<in> added s \<or> k \<in> renamed s)}"
    unfolding m by (rule resolve_sets(1) [OF assms(3) fin])
  show "set (Deleted m) = {k. \<not> ex k \<and> (k \<in> removed s \<or> k \<in> renamed s) \<and> k \<notin> added s}"
    unfolding m by (rule resolve_sets(2) [OF assms(3) fin])
  show "set (Changed m) =
           {k. k \<in> changed s \<and> k \<notin> added s \<and> k \<notin> renamed s \<and> (ex k \<or> k \<notin> removed s)}"
    unfolding m by (rule resolve_sets(3) [OF assms(3) fin])
  show "distinct (Added m)" "distinct (Deleted m)" "distinct (Changed m)"
    unfolding m by (rule resolve_sets [OF assms(3) fin])+
qed

lemma batch_splits:
  "\<exists>m n' T rest taken. batch rt D ex n now ch = (m, n', T, rest) \<and> ch = taken @ rest"
proof -
  obtain m n' T rest where b: "batch rt D ex n now ch = (m, n', T, rest)"
    by (cases "batch rt D ex n now ch") auto
  from batch_loop_run [OF b [unfolded batch_def]] obtain taken where "ch = taken @ rest"
    by blast
  with b show ?thesis by blast
qed

lemma received_paths:
  "p \<in> added (fold receive (map snd taken) empty_accum) \<longleftrightarrow> (\<exists>t. (t, EventInfo Create p) \<in> set taken)"
  "p \<in> removed (fold receive (map snd taken) empty_accum) \<longleftrightarrow> (\<exists>t. (t, EventInfo Remove p) \<in> set taken)"
  "p \<in> changed (fold receive (map snd taken) empty_accum) \<longleftrightarrow> (\<exists>t. (t, EventInfo Write p) \<in> set taken)"
  "p \<in> renamed (fold receive (map snd taken) empty_accum) \<longleftrightarrow> (\<exists>t. (t, EventInfo Rename p) \<in> set taken)"
proof -
  have *: "(\<exists>e. p = Path e \<and> e \<in> snd ` set taken \<and> Event e = K) \<longleftrightarrow> (\<exists>t. (t, EventInfo K p) \<in> set taken)"
    for K
  proof
    assume "\<exists>e. p = Path e \<and> e \<in> snd ` set taken \<and> Event e = K"
    then obtain e where e: "p = Path e" "e \<in> snd ` set taken" "Event e = K" by blast
    then have "e = EventInfo K p" by (cases e) simp
    with e(2) show "\<exists>t. (t, EventInfo K p) \<in> set taken" by auto
  next
    assume "\<exists>t. (t, EventInfo K p) \<in> set taken"
    then obtain t where "(t, EventInfo K p) \<in> set taken" ..
    then have "EventInfo K p \<in> snd ` set taken" by force
    then show "\<exists>e. p = Path e \<and> e \<in> snd ` set taken \<and> Event e = K"
      by (intro exI [of _ "EventInfo K p"]) simp
  qed
  show "p \<in> added (fold receive (map snd taken) empty_accum) \<longleftrightarrow> (\<exists>t. (t, EventInfo Create p) \<in> set taken)"
    using * [of Create] by (simp add: receive_sets empty_accum_def)
  show "p \<in> removed (fold receive (map snd taken) empty_accum) \<longleftrightarrow> (\<exists>t. (t, EventInfo Remove p) \<in> set taken)"
    using * [of Remove] by (simp add: receive_sets empty_accum_def)
  show "p \<in> changed (fold receive (map snd taken) empty_accum) \<longleftrightarrow> (\<exists>t. (t, EventInfo Write p) \<in> set taken)"
    using * [of Write] by (simp add: receive_sets empty_accum_def)
  show "p \<in> renamed (fold receive (map snd taken) empty_accum) \<longleftrightarrow> (\<exists>t. (t, EventInfo Rename p) \<in> set taken)"
    using * [of Rename] by (simp add: receive_sets empty_accum_def)
qed

lemma resolve_empty: "resolve order ex empty_accum = \<lparr>Changed = [], Deleted = [], Added = []\<rparr>"
proof -
  have 1: "range_keys ks renamed (renamed_body ex) empty_accum = empty_accum" for ks
    by (induction ks) (simp_all add: empty_accum_def)
  have 2: "range_keys ks added (added_body ex) empty_accum = empty_accum" for ks
    by (induction ks) (simp_all add: empty_accum_def)
  have 3: "range_keys ks removed (removed_body ex) empty_accum = empty_accum" for ks
    by (induction ks) (simp_all add: empty_accum_def)
  have 4: "keys' order {} = []" by (simp add: keys'_def)
  show ?thesis
    by (simp add: resolve_def 1 2 3) (simp add: empty_accum_def 4)
qed

lemma batch_nothing_received:
  assumes "batch rt D ex n now ch = (m, n', T, ch)"
  shows "m = \<lparr>Changed = [], Deleted = [], Added = []\<rparr>"
proof -
  have "ch = [] @ ch" by simp
  from batch_run(1) [OF assms this] show ?thesis by (simp add: resolve_empty)
qed

lemma burst_received:
  assumes "0 < D"
    and "\<forall>pre t evt post. ch = pre @ (t, evt) # post \<longrightarrow> t < last_receipt now pre + D"
  shows "snd (snd (snd (batch_loop rt D ex s n now ch))) = []"
  using assms(2)
proof (induction ch arbitrary: s n now)
  case Nil
  show ?case by simp
next
  case (Cons x ch)
  obtain t evt where x: "x = (t, evt)" by (cases x)
  have "x # ch = [] @ (t, evt) # ch" by (simp add: x)
  then have "t < last_receipt now [] + D" using Cons.prems by blast
  then have c: "max t now < now + max D 0 \<or> (max t now = now + max D 0 \<and> select_tie rt n)"
    using assms(1) by simp
  have step: "batch_loop rt D ex s n now ((t, evt) # ch) =
        batch_loop rt D ex (receive evt s) (Suc n) (max t now) ch"
    by (simp only: batch_loop.simps Let_def if_P [OF c])
  have "\<forall>pre t' evt' post. ch = pre @ (t', evt') # post \<longrightarrow>
          t' < last_receipt (max t now) pre + D"
  proof (intro allI impI)
    fix pre t' evt' post
    assume "ch = pre @ (t', evt') # post"
    then have "x # ch = ((t, evt) # pre) @ (t', evt') # post" by (simp add: x)
    then have "t' < last_receipt now ((t, evt) # pre) + D" using Cons.prems by blast
    then show "t' < last_receipt (max t now) pre + D" by simp
  qed
  from Cons.IH [OF this] show ?case by (simp only: x step)
qed

lemma prefix_at_index:
  assumes "\<forall>i < length xs. P (take i xs) (xs ! i)" and "xs = pre @ x # post"
  shows "P pre x"
proof -
  have "length pre < length xs" using assms(2) by simp
  moreover have "take (length pre) xs = pre" "xs ! length pre = x" using assms(2) by simp_all
  ultimately show ?thesis using assms(1) by metis
qed

section \<open>The resolved categories\<close>

text \<open>
  C1. Whatever the events in the channel and whatever \<open>exists.Check\<close> answers, the \<open>Mod\<close>
  that \<open>batch\<close> returns has pairwise disjoint \<open>Added\<close>, \<open>Changed\<close> and \<open>Deleted\<close>, and no
  path occurs twice in the three sequences taken together.
\<close>

theorem batch_categories_disjoint:
  assumes "enumerates (map_order rt)"
  shows "let m = fst (batch rt batchTime exists n now ch) in
           set (Added m) \<inter> set (Changed m) = {} \<and>
           set (Added m) \<inter> set (Deleted m) = {} \<and>
           set (Changed m) \<inter> set (Deleted m) = {} \<and>
           distinct (Added m @ Changed m @ Deleted m)"
proof -
  obtain m n' T rest taken where
    b: "batch rt batchTime exists n now ch = (m, n', T, rest)" and c: "ch = taken @ rest"
    using batch_splits by blast
  note r = batch_resolves [OF b c assms]
  have "set (Added m) \<inter> set (Changed m) = {}" by (auto simp: r(1,3))
  moreover have "set (Added m) \<inter> set (Deleted m) = {}" by (auto simp: r(1,2))
  moreover have "set (Changed m) \<inter> set (Deleted m) = {}" by (auto simp: r(2,3))
  ultimately show ?thesis using r(4,5,6) by (auto simp: b)
qed

theorem batch_categories_disjoint_witness:
  "enumerates (map_order sorted_runtime) \<and>
   (let m = fst (batch sorted_runtime 200 (\<lambda>p. p = ''/r/a'') 0 0
              [(0, EventInfo Create ''/r/a''), (50, EventInfo Write ''/r/a''),
               (60, EventInfo Write ''/r/b''), (70, EventInfo Remove ''/r/b'')])
    in m = \<lparr>Changed = [], Deleted = [''/r/b''], Added = [''/r/a'']\<rparr> \<and>
       set (Added m) \<inter> set (Changed m) = {} \<and>
       set (Added m) \<inter> set (Deleted m) = {} \<and>
       set (Changed m) \<inter> set (Deleted m) = {} \<and>
       distinct (Added m @ Changed m @ Deleted m))"
proof -
  have run: "fst (batch sorted_runtime 200 (\<lambda>p. p = ''/r/a'') 0 0
              [(0, EventInfo Create ''/r/a''), (50, EventInfo Write ''/r/a''),
               (60, EventInfo Write ''/r/b''), (70, EventInfo Remove ''/r/b'')])
             = \<lparr>Changed = [], Deleted = [''/r/b''], Added = [''/r/a'']\<rparr>"
    by code_simp
  show ?thesis
    using batch_categories_disjoint [OF enumerates_sorted_runtime, of 200 "\<lambda>p. p = ''/r/a''" 0 0
        "[(0, EventInfo Create ''/r/a''), (50, EventInfo Write ''/r/a''),
          (60, EventInfo Write ''/r/b''), (70, EventInfo Remove ''/r/b'')]"]
      enumerates_sorted_runtime run
    by (simp add: Let_def)
qed

text \<open>
  C3. A path that the events received in one cycle report by \<open>Rename\<close> and by nothing
  else is in \<open>Added\<close> only when \<open>exists.Check\<close> is true for it, and in \<open>Deleted\<close> only when
  it is false. The events received are the part \<open>taken\<close> of the channel that \<open>batch\<close> does
  not leave behind.
\<close>

theorem rename_only_by_existence:
  assumes "enumerates (map_order rt)"
    and "batch rt batchTime exists n now ch = (m, n', T, rest)"
    and "ch = taken @ rest"
    and "\<exists>t. (t, EventInfo Rename p) \<in> set taken"
    and "\<forall>(t, evt) \<in> set taken. Path evt = p \<longrightarrow> Event evt = Rename"
  shows "(exists p \<longrightarrow> p \<in> set (Added m) \<and> p \<notin> set (Changed m) \<and> p \<notin> set (Deleted m)) \<and>
         (\<not> exists p \<longrightarrow> p \<in> set (Deleted m) \<and> p \<notin> set (Added m) \<and> p \<notin> set (Changed m))"
proof -
  note r = batch_resolves [OF assms(2,3,1)]
  have no: "\<not> (\<exists>t. (t, EventInfo Create p) \<in> set taken)"
    "\<not> (\<exists>t. (t, EventInfo Remove p) \<in> set taken)"
    "\<not> (\<exists>t. (t, EventInfo Write p) \<in> set taken)"
    using assms(5) by fastforce+
  show ?thesis
    using assms(4) no by (simp add: r(1,2,3) received_paths)
qed

theorem rename_only_by_existence_witness:
  "enumerates (map_order sorted_runtime) \<and>
   batch sorted_runtime 200 (\<lambda>p. p = ''/r/new'') 0 0
     [(0, EventInfo Rename ''/r/old''), (1, EventInfo Rename ''/r/new''), (500, EventInfo Write ''/r/old'')]
     = (\<lparr>Changed = [], Deleted = [''/r/old''], Added = [''/r/new'']\<rparr>, 3, 201, [(500, EventInfo Write ''/r/old'')]) \<and>
   ''/r/new'' \<in> set [''/r/new''] \<and> ''/r/new'' \<notin> set ([] :: string list) \<and> ''/r/new'' \<notin> set [''/r/old''] \<and>
   ''/r/old'' \<in> set [''/r/old''] \<and> ''/r/old'' \<notin> set [''/r/new''] \<and> ''/r/old'' \<notin> set ([] :: string list)"
proof -
  let ?ex = "\<lambda>p. p = ''/r/new''"
  let ?taken = "[(0 :: int, EventInfo Rename ''/r/old''), (1, EventInfo Rename ''/r/new'')]"
  let ?rest = "[(500 :: int, EventInfo Write ''/r/old'')]"
  let ?m = "\<lparr>Changed = [], Deleted = [''/r/old''], Added = [''/r/new'']\<rparr>"
  have run: "batch sorted_runtime 200 ?ex 0 0 (?taken @ ?rest) = (?m, 3, 201, ?rest)"
    by code_simp
  have new: "\<exists>t. (t, EventInfo Rename ''/r/new'') \<in> set ?taken"
    by (rule exI [of _ 1]) simp
  have old: "\<exists>t. (t, EventInfo Rename ''/r/old'') \<in> set ?taken"
    by (rule exI [of _ 0]) simp
  have only_new: "\<forall>(t, evt) \<in> set ?taken. Path evt = ''/r/new'' \<longrightarrow> Event evt = Rename"
    by simp
  have only_old: "\<forall>(t, evt) \<in> set ?taken. Path evt = ''/r/old'' \<longrightarrow> Event evt = Rename"
    by simp
  show ?thesis
    using rename_only_by_existence [OF enumerates_sorted_runtime run refl new only_new]
      rename_only_by_existence [OF enumerates_sorted_runtime run refl old only_old]
      enumerates_sorted_runtime run
    by simp
qed

text \<open>
  C4. A path that the events received in one cycle report by \<open>Create\<close> and by \<open>Remove\<close>,
  and for which \<open>exists.Check\<close> is false, is in none of the three categories.
\<close>

theorem created_removed_gone_is_struck:
  assumes "enumerates (map_order rt)"
    and "batch rt batchTime exists n now ch = (m, n', T, rest)"
    and "ch = taken @ rest"
    and "(t1, EventInfo Create p) \<in> set taken"
    and "(t2, EventInfo Remove p) \<in> set taken"
    and "\<not> exists p"
  shows "p \<notin> set (Added m) \<and> p \<notin> set (Changed m) \<and> p \<notin> set (Deleted m)"
proof -
  note r = batch_resolves [OF assms(2,3,1)]
  have "\<exists>t. (t, EventInfo Create p) \<in> set taken" using assms(4) by blast
  then show ?thesis
    using assms(6) by (simp add: r(1,2,3) received_paths)
qed

theorem created_removed_gone_is_struck_witness:
  "enumerates (map_order sorted_runtime) \<and>
   batch sorted_runtime 200 (\<lambda>p. False) 0 0
     [(0, EventInfo Create ''/r/tmp''), (5, EventInfo Write ''/r/tmp''), (9, EventInfo Remove ''/r/tmp'')]
     = (\<lparr>Changed = [], Deleted = [], Added = []\<rparr>, 4, 209, []) \<and>
   ''/r/tmp'' \<notin> set ([] :: string list)"
proof -
  let ?taken = "[(0 :: int, EventInfo Create ''/r/tmp''), (5, EventInfo Write ''/r/tmp''),
                 (9, EventInfo Remove ''/r/tmp'')]"
  have run: "batch sorted_runtime 200 (\<lambda>p. False) 0 0 ?taken
               = (\<lparr>Changed = [], Deleted = [], Added = []\<rparr>, 4, 209, [])"
    by code_simp
  have split: "?taken = ?taken @ []" by simp
  have c: "(0, EventInfo Create ''/r/tmp'') \<in> set ?taken" by simp
  have r: "(9, EventInfo Remove ''/r/tmp'') \<in> set ?taken" by simp
  show ?thesis
    using created_removed_gone_is_struck [OF enumerates_sorted_runtime run split c r]
      enumerates_sorted_runtime run
    by simp
qed

text \<open>
  C5. A path that the events received in one cycle report by \<open>Write\<close> and by \<open>Create\<close>,
  and for which \<open>exists.Check\<close> is true, is in \<open>Added\<close> and in neither \<open>Changed\<close> nor
  \<open>Deleted\<close>.
\<close>

theorem written_created_existing_is_added:
  assumes "enumerates (map_order rt)"
    and "batch rt batchTime exists n now ch = (m, n', T, rest)"
    and "ch = taken @ rest"
    and "(t1, EventInfo Write p) \<in> set taken"
    and "(t2, EventInfo Create p) \<in> set taken"
    and "exists p"
  shows "p \<in> set (Added m) \<and> p \<notin> set (Changed m) \<and> p \<notin> set (Deleted m)"
proof -
  note r = batch_resolves [OF assms(2,3,1)]
  have "\<exists>t. (t, EventInfo Create p) \<in> set taken" using assms(5) by blast
  then show ?thesis
    using assms(6) by (simp add: r(1,2,3) received_paths)
qed

theorem written_created_existing_is_added_witness:
  "enumerates (map_order sorted_runtime) \<and>
   batch sorted_runtime 200 (\<lambda>p. True) 0 0
     [(0, EventInfo Write ''/r/a''), (5, EventInfo Create ''/r/a'')]
     = (\<lparr>Changed = [], Deleted = [], Added = [''/r/a'']\<rparr>, 3, 205, []) \<and>
   ''/r/a'' \<in> set [''/r/a''] \<and> ''/r/a'' \<notin> set ([] :: string list)"
proof -
  let ?taken = "[(0 :: int, EventInfo Write ''/r/a''), (5, EventInfo Create ''/r/a'')]"
  have run: "batch sorted_runtime 200 (\<lambda>p. True) 0 0 ?taken
               = (\<lparr>Changed = [], Deleted = [], Added = [''/r/a'']\<rparr>, 3, 205, [])"
    by code_simp
  have split: "?taken = ?taken @ []" by simp
  have w: "(0, EventInfo Write ''/r/a'') \<in> set ?taken" by simp
  have c: "(5, EventInfo Create ''/r/a'') \<in> set ?taken" by simp
  show ?thesis
    using written_created_existing_is_added [OF enumerates_sorted_runtime run split w c]
      enumerates_sorted_runtime run
    by simp
qed

section \<open>The quiet period\<close>

text \<open>
  C7. Debounce. Let \<open>batch\<close>, entered at \<open>now\<close>, receive the events \<open>taken\<close> and leave
  \<open>rest\<close> in the channel. It returns a full \<open>batchTime\<close> after the last receipt (after
  \<open>now\<close> when it received nothing): every receipt starts the wait anew. Every event
  it received was sent no later than \<open>batchTime\<close> after the receipt before it, and the
  first event it left behind was not there before the return. When \<open>batchTime\<close> is
  positive and every event in the channel follows the receipt before it by less than
  \<open>batchTime\<close>, all of them are received in this one cycle, however long they go on.
  What is resolved is exactly what was received.
\<close>

theorem batch_debounce:
  assumes "batch rt batchTime exists n now ch = (m, n', T, rest)" and "ch = taken @ rest"
  shows "T = last_receipt now taken + max batchTime 0 \<and>
         (\<forall>i < length taken. fst (taken ! i) \<le> last_receipt now (take i taken) + max batchTime 0) \<and>
         (\<forall>t evt rest'. rest = (t, evt) # rest' \<longrightarrow> T \<le> max t (last_receipt now taken)) \<and>
         (0 < batchTime \<and>
          (\<forall>i < length ch. fst (ch ! i) < last_receipt now (take i ch) + batchTime)
            \<longrightarrow> rest = []) \<and>
         m = resolve (map_order rt) exists (fold receive (map snd taken) empty_accum)"
proof -
  note r = batch_run [OF assms]
  have gaps: "fst (taken ! i) \<le> last_receipt now (take i taken) + max batchTime 0"
    if "i < length taken" for i
  proof -
    have "taken = take i taken @ (fst (taken ! i), snd (taken ! i)) # drop (Suc i) taken"
      using that by (simp add: id_take_nth_drop)
    then show ?thesis using r(4) by blast
  qed
  have burst: "rest = []"
    if d: "0 < batchTime"
      and q: "\<forall>i < length ch. fst (ch ! i) < last_receipt now (take i ch) + batchTime"
  proof -
    have "\<forall>pre t evt post. ch = pre @ (t, evt) # post \<longrightarrow> t < last_receipt now pre + batchTime"
    proof (intro allI impI)
      fix pre t evt post
      assume "ch = pre @ (t, evt) # post"
      from prefix_at_index [where P = "\<lambda>pre x. fst x < last_receipt now pre + batchTime", OF q this]
      show "t < last_receipt now pre + batchTime" by simp
    qed
    from burst_received [OF d this, of rt "exists" empty_accum n] assms(1)
    show ?thesis by (simp add: batch_def)
  qed
  show ?thesis
    using r(1,3,5) gaps burst by (intro conjI allI impI) auto
qed

theorem batch_debounce_witness:
  "batch sorted_runtime 200 (\<lambda>p. True) 0 0
     [(0, EventInfo Create ''/r/a''), (150, EventInfo Write ''/r/a''), (300, EventInfo Write ''/r/a''),
      (450, EventInfo Write ''/r/a''), (700, EventInfo Write ''/r/b'')]
     = (\<lparr>Changed = [], Deleted = [], Added = [''/r/a'']\<rparr>, 5, 650, [(700, EventInfo Write ''/r/b'')]) \<and>
   (650 :: int) = 450 + max 200 0 \<and> (450 :: int) \<le> 300 + max 200 0 \<and> (650 :: int) \<le> max 700 450 \<and>
   batch sorted_runtime 200 (\<lambda>p. True) 0 0
     [(0, EventInfo Create ''/r/a''), (150, EventInfo Write ''/r/a''), (300, EventInfo Write ''/r/a''),
      (450, EventInfo Write ''/r/a'')]
     = (\<lparr>Changed = [], Deleted = [], Added = [''/r/a'']\<rparr>, 5, 650, [])"
proof -
  let ?taken = "[(0 :: int, EventInfo Create ''/r/a''), (150, EventInfo Write ''/r/a''),
                 (300, EventInfo Write ''/r/a''), (450, EventInfo Write ''/r/a'')]"
  let ?rest = "[(700 :: int, EventInfo Write ''/r/b'')]"
  let ?m = "\<lparr>Changed = [], Deleted = [], Added = [''/r/a'']\<rparr>"
  have run: "batch sorted_runtime 200 (\<lambda>p. True) 0 0 (?taken @ ?rest) = (?m, 5, 650, ?rest)"
    by code_simp
  note d = batch_debounce [OF run refl]
  have 1: "(650 :: int) = last_receipt 0 ?taken + max 200 0"
    by (rule d [THEN conjunct1])
  have "3 < length ?taken" by simp
  from d [THEN conjunct2, THEN conjunct1, rule_format, OF this]
  have 2: "(450 :: int) \<le> last_receipt 0 (take 3 ?taken) + max 200 0" by simp
  from d [THEN conjunct2, THEN conjunct2, THEN conjunct1, rule_format, OF refl]
  have 3: "(650 :: int) \<le> max 700 (last_receipt 0 ?taken)" .
  have run2: "batch sorted_runtime 200 (\<lambda>p. True) 0 0 ?taken = (?m, 5, 650, [])"
    by code_simp
  have split: "?taken = ?taken @ []" by simp
  have gaps: "(0 :: int) < 200 \<and>
      (\<forall>i < length ?taken. fst (?taken ! i) < last_receipt 0 (take i ?taken) + 200)"
    by (simp add: All_less_Suc)
  from batch_debounce [OF run2 split, THEN conjunct2, THEN conjunct2, THEN conjunct2,
      THEN conjunct1] gaps
  have 4: "([] :: (int \<times> EventInfo) list) = []" by (rule mp)
  have e1: "(650 :: int) = 450 + max 200 0" using 1 by simp
  have e2: "(450 :: int) \<le> 300 + max 200 0" using 2 by simp
  have e3: "(650 :: int) \<le> max 700 450" using 3 by simp
  have run': "batch sorted_runtime 200 (\<lambda>p. True) 0 0
     [(0, EventInfo Create ''/r/a''), (150, EventInfo Write ''/r/a''), (300, EventInfo Write ''/r/a''),
      (450, EventInfo Write ''/r/a''), (700, EventInfo Write ''/r/b'')] = (?m, 5, 650, ?rest)"
    using run by (simp only: append.simps)
  show ?thesis
    by (intro conjI) (rule run', rule e1, rule e2, rule e3, rule run2)
qed

section \<open>Mod.All, Mod.Empty and the loop of Watch\<close>

lemma fold_insert_set: "fold insert xs S = set xs \<union> S"
  by (induction xs arbitrary: S) auto

lemma Mod_All_sorted_list:
  assumes "enumerates order"
  shows "Mod_All order m = sorted_list_of_set (set (Added m) \<union> set (Changed m) \<union> set (Deleted m))"
proof -
  have "fold insert (Deleted m) (fold insert (Added m) (fold insert (Changed m) {})) =
      set (Added m) \<union> set (Changed m) \<union> set (Deleted m)"
    by (auto simp: fold_insert_set)
  moreover have "finite (set (Added m) \<union> set (Changed m) \<union> set (Deleted m))" by simp
  ultimately show ?thesis
    using assms by (simp add: Mod_All_def Let_def keys'_sorted_list)
qed

text \<open>
  C8. \<open>All\<close> returns the union of \<open>Added\<close>, \<open>Changed\<close> and \<open>Deleted\<close> as a sorted list
  without duplicates, and two \<open>Mod\<close>s whose sequences hold the same paths, in whatever
  order and however often, have the same \<open>All\<close>.
\<close>

theorem Mod_All_sorted_union:
  assumes "enumerates order"
  shows "sorted (Mod_All order m) \<and> distinct (Mod_All order m) \<and>
         set (Mod_All order m) = set (Added m) \<union> set (Changed m) \<union> set (Deleted m) \<and>
         (\<forall>m'. set (Added m') = set (Added m) \<and> set (Changed m') = set (Changed m) \<and>
                set (Deleted m') = set (Deleted m) \<longrightarrow> Mod_All order m' = Mod_All order m)"
  by (simp add: Mod_All_sorted_list [OF assms])

theorem Mod_All_sorted_union_witness:
  "enumerates sorted_list_of_set \<and>
   Mod_All sorted_list_of_set \<lparr>Changed = [''c'', ''a'', ''c''], Deleted = [''b'', ''a''], Added = [''d'', ''b'']\<rparr>
     = [''a'', ''b'', ''c'', ''d''] \<and>
   Mod_All sorted_list_of_set \<lparr>Changed = [''a'', ''c''], Deleted = [''a'', ''b'', ''b''], Added = [''b'', ''d'']\<rparr>
     = [''a'', ''b'', ''c'', ''d'']"
proof -
  let ?m = "\<lparr>Changed = [''c'', ''a'', ''c''], Deleted = [''b'', ''a''], Added = [''d'', ''b'']\<rparr>"
  let ?m' = "\<lparr>Changed = [''a'', ''c''], Deleted = [''a'', ''b'', ''b''], Added = [''b'', ''d'']\<rparr>"
  have e: "enumerates sorted_list_of_set" by (simp add: enumerates_def)
  have run: "Mod_All sorted_list_of_set ?m = [''a'', ''b'', ''c'', ''d'']" by code_simp
  have same: "set (Added ?m') = set (Added ?m) \<and> set (Changed ?m') = set (Changed ?m) \<and>
              set (Deleted ?m') = set (Deleted ?m)"
    by auto
  have "Mod_All sorted_list_of_set ?m' = Mod_All sorted_list_of_set ?m"
    using Mod_All_sorted_union [OF e, of ?m] same by blast
  then show ?thesis using e run by simp
qed

lemma Watch_turn_sent:
  "\<exists>vs. sent (Watch_turn rt os paths excludes D st) = sent st @ vs \<and> (\<forall>v \<in> set vs. \<not> Mod_Empty v)"
proof -
  obtain m n T rest where b: "batch rt D (Check os) (selects st) (clock st) (evtch st) = (m, n, T, rest)"
    by (cases "batch rt D (Check os) (selects st) (clock st) (evtch st)") auto
  show ?thesis
    by (auto simp: Watch_turn_def b Let_def new_Mod_def Shout_def
        split: outcome.splits option.splits prod.splits)
qed

lemma Watch_loop_sent:
  "\<exists>vs. sent (Watch_loop k rt os paths excludes D st) = sent st @ vs \<and> (\<forall>v \<in> set vs. \<not> Mod_Empty v)"
proof (induction k arbitrary: st)
  case 0
  show ?case by simp
next
  case (Suc k)
  let ?st = "Watch_turn rt os paths excludes D st"
  obtain vs where 1: "sent ?st = sent st @ vs" "\<forall>v \<in> set vs. \<not> Mod_Empty v"
    using Watch_turn_sent by blast
  show ?case
  proof (cases "panicked ?st")
    case True
    then show ?thesis using 1 by (auto simp: Let_def)
  next
    case False
    obtain ws where 2: "sent (Watch_loop k rt os paths excludes D ?st) = sent ?st @ ws"
      "\<forall>v \<in> set ws. \<not> Mod_Empty v"
      using Suc.IH by blast
    have "sent (Watch_loop (Suc k) rt os paths excludes D st) = sent st @ (vs @ ws)"
      using False 1 2 by (simp add: Let_def)
    moreover have "\<forall>v \<in> set (vs @ ws). \<not> Mod_Empty v" using 1 2 by auto
    ultimately show ?thesis by blast
  qed
qed

text \<open>
  C6. A cycle in which \<open>batch\<close> receives nothing (the channel is empty, or is returned as
  it was) yields a \<open>Mod\<close> for which \<open>Empty\<close> is true; and whatever the loop of \<open>Watch\<close>
  writes to \<open>ch\<close> is a \<open>Mod\<close> for which \<open>Empty\<close> is false.
\<close>

theorem empty_cycle_not_forwarded:
  "Mod_Empty (fst (batch rt batchTime exists n now [])) \<and>
   (\<forall>m n' T. batch rt batchTime exists n now ch = (m, n', T, ch) \<longrightarrow> Mod_Empty m) \<and>
   (\<exists>vs. sent (Watch_loop k rt os paths excludes batchTime st) = sent st @ vs \<and>
         (\<forall>v \<in> set vs. \<not> Mod_Empty v))"
proof -
  have "Mod_Empty m" if "batch rt batchTime exists n now ch = (m, n', T, ch)" for m n' T ch
    using batch_nothing_received [OF that] by (simp add: Mod_Empty_def)
  moreover have "batch rt batchTime exists n now [] =
      (fst (batch rt batchTime exists n now []), Suc n, now + max batchTime 0, [])"
    by (simp add: batch_def)
  ultimately show ?thesis using Watch_loop_sent by metis
qed

theorem empty_cycle_not_forwarded_witness:
  "Mod_Empty (fst (batch sorted_runtime 200 (Check example_os) 0 0 [])) \<and>
   batch sorted_runtime 200 (Check example_os) 0 0 [(900, EventInfo Remove ''/w/src/gone'')]
     = (\<lparr>Changed = [], Deleted = [], Added = []\<rparr>, 1, 200, [(900, EventInfo Remove ''/w/src/gone'')]) \<and>
   Mod_Empty \<lparr>Changed = [], Deleted = [], Added = []\<rparr> \<and>
   sent (Watch_loop 5 sorted_runtime example_os [''src''] [] 200 example_session)
     = sent example_session @
       [\<lparr>Changed = [], Deleted = [], Added = [''src/a.go'']\<rparr>,
        \<lparr>Changed = [], Deleted = [''src/gone''], Added = []\<rparr>] \<and>
   \<not> Mod_Empty \<lparr>Changed = [], Deleted = [], Added = [''src/a.go'']\<rparr> \<and>
   \<not> Mod_Empty \<lparr>Changed = [], Deleted = [''src/gone''], Added = []\<rparr>"
proof -
  let ?ch = "[(900 :: int, EventInfo Remove ''/w/src/gone'')]"
  let ?e = "\<lparr>Changed = [], Deleted = [], Added = []\<rparr>"
  let ?a = "\<lparr>Changed = [], Deleted = [], Added = [''src/a.go'']\<rparr>"
  let ?d = "\<lparr>Changed = [], Deleted = [''src/gone''], Added = []\<rparr>"
  note t = empty_cycle_not_forwarded [of sorted_runtime 200 "Check example_os" 0 0 ?ch
      5 example_os "[''src'']" "[]" example_session]
  have run: "batch sorted_runtime 200 (Check example_os) 0 0 ?ch = (?e, 1, 200, ?ch)"
    by code_simp
  have loop: "sent (Watch_loop 5 sorted_runtime example_os [''src''] [] 200 example_session)
      = sent example_session @ [?a, ?d]"
    by code_simp
  have 1: "Mod_Empty (fst (batch sorted_runtime 200 (Check example_os) 0 0 []))"
    by (rule t [THEN conjunct1])
  have 2: "Mod_Empty ?e"
    using t [THEN conjunct2, THEN conjunct1] run by blast
  obtain vs where vs: "sent (Watch_loop 5 sorted_runtime example_os [''src''] [] 200 example_session)
      = sent example_session @ vs" "\<forall>v \<in> set vs. \<not> Mod_Empty v"
    using t [THEN conjunct2, THEN conjunct2] by blast
  have "vs = [?a, ?d]" using vs(1) loop by simp
  then have 3: "\<not> Mod_Empty ?a" "\<not> Mod_Empty ?d" using vs(2) by simp_all
  show ?thesis
    by (intro conjI) (rule 1, rule run, rule 2, rule loop, rule 3(1), rule 3(2))
qed

section \<open>Errors of normPaths and Filter in the loop\<close>

lemma Mod_Filter_cases:
  assumes "Mod_Filter os p excludes h = Return ((r, err), h')"
  shows "(err \<noteq> None \<and> r = None \<and> h' = h) \<or>
         (err = None \<and> r = Some (length h) \<and>
          (\<exists>m. deref h p = Some m \<and>
             h' = h @ [\<lparr>Changed = fst (filterFiles os (Changed m) excludes),
                        Deleted = fst (filterFiles os (Deleted m) excludes),
                        Added = fst (filterFiles os (Added m) excludes)\<rparr>]))"
proof (cases "deref h p")
  case None
  then show ?thesis using assms by (simp add: Mod_Filter_def)
next
  case (Some m)
  obtain c e1 where c: "filterFiles os (Changed m) excludes = (c, e1)" by (cases "filterFiles os (Changed m) excludes")
  obtain d e2 where d: "filterFiles os (Deleted m) excludes = (d, e2)" by (cases "filterFiles os (Deleted m) excludes")
  obtain a e3 where a: "filterFiles os (Added m) excludes = (a, e3)" by (cases "filterFiles os (Added m) excludes")
  show ?thesis
    using assms by (auto simp: Mod_Filter_def Some c d a new_Mod_def split: if_splits)
qed

lemma Watch_turn_shout_panics:
  assumes "shouted (Watch_turn rt os paths excludes D st) \<noteq> shouted st"
  shows "panicked (Watch_turn rt os paths excludes D st) \<and>
         sent (Watch_turn rt os paths excludes D st) = sent st"
proof -
  obtain m n T rest where b: "batch rt D (Check os) (selects st) (clock st) (evtch st) = (m, n, T, rest)"
    by (cases "batch rt D (Check os) (selects st) (clock st) (evtch st)") auto
  define h1 where "h1 = heap st @ [m]"
  have nil: "Mod_Filter os None excludes h = Panic" for h
    by (simp add: Mod_Filter_def deref_def)
  have derefnil: "deref h None = None" for h by (simp add: deref_def)
  have np: "r = None" if "Mod_normPaths os p paths h = Return ((r, Some e), h')" for p h r e h'
    using that by (auto simp: Mod_normPaths_def new_Mod_def split: option.splits prod.splits if_splits)
  have fl: "r = None" if "Mod_Filter os p excludes h = Return ((r, Some e), h')" for p h r e h'
    using Mod_Filter_cases [OF that] by auto
  note defs = Watch_turn_def b Let_def Shout_def new_Mod_def h1_def [symmetric]
  show ?thesis
  proof (cases "Mod_normPaths os (Some (length (heap st))) paths h1")
    case Panic
    then show ?thesis using assms by (simp add: defs)
  next
    case (Return x)
    obtain r err h2 where x: "x = ((r, err), h2)" by (cases x) auto
    show ?thesis
    proof (cases err)
      case (Some e)
      have "r = None" using np Return by (simp add: x Some)
      then show ?thesis using Return by (simp add: defs x Some nil)
    next
      case None
      show ?thesis
      proof (cases "Mod_Filter os r excludes h2")
        case Panic
        then show ?thesis using assms Return by (simp add: defs x None)
      next
        case ret: (Return y)
        obtain r' err' h3 where y: "y = ((r', err'), h3)" by (cases y) auto
        show ?thesis
        proof (cases err')
          case (Some e)
          have "r' = None" using fl ret by (simp add: y Some)
          then show ?thesis using Return ret by (simp add: defs x None y Some derefnil)
        next
          case n: None
          have "shouted (Watch_turn rt os paths excludes D st) = shouted st"
            using Return ret by (simp add: defs x None y n split: option.splits)
          then show ?thesis using assms by simp
        qed
      qed
    qed
  qed
qed

lemma Watch_loop_stops_at_panic:
  "panicked (Watch_turn rt os paths excludes D st) \<Longrightarrow>
     Watch_loop (Suc k) rt os paths excludes D st = Watch_turn rt os paths excludes D st"
  by (simp add: Let_def)

text \<open>
  C2. An error of \<open>Filter\<close> or of \<open>normPaths\<close> is logged by \<open>Shout\<close>, and then the turn goes
  on with the nil pointer that came with the error: \<open>ret.Empty()\<close>, respectively
  \<open>ret.Filter(excludes)\<close>, reads through it and panics. Here the first turn ends the
  loop, with the line logged and nothing sent, once for an exclude pattern that
  \<open>filterFiles\<close> rejects and once for a \<open>filepath.Abs\<close> that fails; the event sent at 900
  is never received. (\<open>Watch_turn_shout_panics\<close> is the general fact: a turn that logs
  an error panics.)
\<close>

theorem postprocessing_error_panics:
  "Watch_loop 3 sorted_runtime example_os [''src''] [''[''] 200 example_session =
     \<lparr>clock = 200, evtch = [(900, EventInfo Remove ''/w/src/gone'')], selects = 2,
      heap = [\<lparr>Changed = [], Deleted = [], Added = [''/w/src/a.go'']\<rparr>,
              \<lparr>Changed = [], Deleted = [], Added = [''src/a.go'']\<rparr>],
      shouted = [''Error filtering paths: syntax error in pattern''],
      sent = [], panicked = True\<rparr> \<and>
   Watch_loop 3 sorted_runtime
       (example_os\<lparr>Abs := (\<lambda>p. ([], Some ''getwd: no such file or directory''))\<rparr>)
       [''src''] [] 200 example_session =
     \<lparr>clock = 200, evtch = [(900, EventInfo Remove ''/w/src/gone'')], selects = 2,
      heap = [\<lparr>Changed = [], Deleted = [], Added = [''/w/src/a.go'']\<rparr>],
      shouted = [''Error normalising paths: getwd: no such file or directory''],
      sent = [], panicked = True\<rparr>"
  by code_simp

section \<open>Filter and its receiver\<close>

text \<open>
  C9. When \<open>Filter\<close> returns, the \<open>Mod\<close> that the receiver points to is what it was, and
  so is every other \<open>Mod\<close> in the store. Without an error the result is a pointer to a
  cell that did not exist before the call, and is not the receiver; with an error the
  result is nil and the store is untouched.
\<close>

theorem Filter_leaves_receiver:
  assumes "Mod_Filter os p excludes h = Return ((r, err), h')"
  shows "deref h' p = deref h p \<and>
         (\<forall>q. deref h q \<noteq> None \<longrightarrow> deref h' q = deref h q) \<and>
         (err = None \<longrightarrow> r \<noteq> None \<and> r \<noteq> p \<and> deref h r = None \<and> deref h' r \<noteq> None) \<and>
         (err \<noteq> None \<longrightarrow> r = None \<and> h' = h)"
proof -
  have p: "deref h p \<noteq> None"
    using assms by (auto simp: Mod_Filter_def split: option.splits)
  have old: "deref (h @ [v]) q = deref h q" if "deref h q \<noteq> None" for q v
    using that by (auto simp: deref_def nth_append split: option.splits if_splits)
  have new: "deref h (Some (length h)) = None" "deref (h @ [v]) (Some (length h)) \<noteq> None" for v
    by (simp_all add: deref_def)
  from Mod_Filter_cases [OF assms] show ?thesis
  proof
    assume "err \<noteq> None \<and> r = None \<and> h' = h"
    then show ?thesis by simp
  next
    assume "err = None \<and> r = Some (length h) \<and>
          (\<exists>m. deref h p = Some m \<and>
             h' = h @ [\<lparr>Changed = fst (filterFiles os (Changed m) excludes),
                        Deleted = fst (filterFiles os (Deleted m) excludes),
                        Added = fst (filterFiles os (Added m) excludes)\<rparr>])"
    then obtain v where *: "err = None" "r = Some (length h)" "h' = h @ [v]" by blast
    have "r \<noteq> p" using p new(1) * by auto
    then show ?thesis using * p old new by simp
  qed
qed

theorem Filter_leaves_receiver_witness:
  "Mod_Filter example_os (Some 0) [''b'']
      [\<lparr>Changed = [''a'', ''b''], Deleted = [], Added = [''c'']\<rparr>]
     = Return ((Some 1, None),
         [\<lparr>Changed = [''a'', ''b''], Deleted = [], Added = [''c'']\<rparr>,
          \<lparr>Changed = [''a''], Deleted = [], Added = [''c'']\<rparr>]) \<and>
   deref [\<lparr>Changed = [''a'', ''b''], Deleted = [], Added = [''c'']\<rparr>,
          \<lparr>Changed = [''a''], Deleted = [], Added = [''c'']\<rparr>] (Some 0)
     = deref [\<lparr>Changed = [''a'', ''b''], Deleted = [], Added = [''c'']\<rparr>] (Some 0) \<and>
   Mod_Filter example_os (Some 0) [''['']
      [\<lparr>Changed = [''a'', ''b''], Deleted = [], Added = [''c'']\<rparr>]
     = Return ((None, Some ''syntax error in pattern''),
         [\<lparr>Changed = [''a'', ''b''], Deleted = [], Added = [''c'']\<rparr>])"
proof -
  let ?m = "\<lparr>Changed = [''a'', ''b''], Deleted = [], Added = [''c'']\<rparr>"
  let ?f = "\<lparr>Changed = [''a''], Deleted = [], Added = [''c'']\<rparr>"
  have ok: "Mod_Filter example_os (Some 0) [''b''] [?m] = Return ((Some 1, None), [?m, ?f])"
    by code_simp
  have bad: "Mod_Filter example_os (Some 0) [''[''] [?m]
      = Return ((None, Some ''syntax error in pattern''), [?m])"
    by code_simp
  have 1: "deref [?m, ?f] (Some 0) = deref [?m] (Some 0)"
    by (rule Filter_leaves_receiver [OF ok, THEN conjunct1])
  have "[?m] = [?m]"
    using Filter_leaves_receiver [OF bad] by simp
  show ?thesis
    by (intro conjI) (rule ok, rule 1, rule bad)
qed

section \<open>Paths outside the bases\<close>










end
